theory Spec2Isabelle
  imports Main "HOL-Library.Multiset"
begin

section \<open>The repository client of nupic.tools\<close>

text \<open>
  The development embeds the functions of the repository client (\<^verbatim>\<open>RepositoryClient\<close>)
  and of the issue-comment handler. Every remote call of the source ends in a Node-style
  completion callback \<^verbatim>\<open>callback(err, data)\<close>; the answer of a remote service is a value
  of type \<open>error + 'a\<close> (\<open>Inl\<close> the error), and what a function hands to its own callback
  is its result.
\<close>

subsection \<open>Errors\<close>

text \<open>
  The JavaScript \<^verbatim>\<open>Error\<close> objects that travel through the callbacks. \<open>TransportError\<close> is
  any failure reported by a transport adapter, \<open>NoNextPage\<close> the hosting adapter's answer to
  \<^verbatim>\<open>getNextPage\<close> when the last response carries no link to a next page, and
  \<open>NoPullRequestWith n\<close> the error \<^verbatim>\<open>new Error('No pull request with #' + n)\<close>.
\<close>

datatype error = TransportError string | NoNextPage | NoPullRequestWith nat

subsection \<open>arraysMatch\<close>

text \<open>
  \<^verbatim>\<open>_.intersection(array, other)\<close> of the underscore library: the values of \<open>array\<close>
  that occur in \<open>other\<close>, each once, in the order of their first occurrence. The loop of
  the library keeps the result built so far and skips an item that is already in it.
\<close>

fun intersection_loop :: "'a list \<Rightarrow> 'a list \<Rightarrow> 'a list \<Rightarrow> 'a list" where
  "intersection_loop result [] other = result"
| "intersection_loop result (item # rest) other =
     (if item \<in> set result then intersection_loop result rest other
      else if item \<in> set other then intersection_loop (result @ [item]) rest other
      else intersection_loop result rest other)"

definition intersection :: "'a list \<Rightarrow> 'a list \<Rightarrow> 'a list" where
  "intersection array other = intersection_loop [] array other"

definition arraysMatch :: "'a list \<Rightarrow> 'a list \<Rightarrow> bool" where
  "arraysMatch left right =
     (let sameValues = intersection left right
      in length sameValues = length left \<and> length sameValues = length right)"


subsection \<open>Paginated listings\<close>

text \<open>
  A response of a listing call: the array of items, and the \<^verbatim>\<open>meta\<close> property (the link
  header) from which the hosting adapter finds the next page.
\<close>

record 'a page =
  items :: "'a list"
  meta :: string

text \<open>The first five lines of \<^verbatim>\<open>_getRemainingPages\<close>: \<open>allData\<close> before the next request.\<close>

definition allData :: "'a list option \<Rightarrow> 'a page \<Rightarrow> 'a list" where
  "allData allDataOld lastData =
     (case allDataOld of None \<Rightarrow> [] | Some old \<Rightarrow> [] @ old) @ items lastData"

text \<open>
  \<^verbatim>\<open>_getRemainingPages(lastData, allDataOld, callback)\<close>. The hosting adapter's
  \<^verbatim>\<open>getNextPage\<close> is a parameter. The result is what the callback receives; \<open>None\<close> is a
  run in which the adapter answers every request with one more page, so that the callback
  is never invoked.
\<close>

partial_function (option) getRemainingPages ::
  "('a page \<Rightarrow> error + 'a page) \<Rightarrow> 'a page \<Rightarrow> 'a list option \<Rightarrow> (error + 'a list) option" where
  "getRemainingPages getNextPage lastData allDataOld =
     (case getNextPage lastData of
        Inl error \<Rightarrow> Some (Inr (allData allDataOld lastData))
      | Inr newData \<Rightarrow> getRemainingPages getNextPage newData (Some (allData allDataOld lastData)))"

text \<open>
  \<^verbatim>\<open>getContributors\<close> and \<^verbatim>\<open>getCommits\<close>; the first argument is the adapter's answer to the
  first listing request.
\<close>

definition getContributors ::
  "error + 'a page \<Rightarrow> ('a page \<Rightarrow> error + 'a page) \<Rightarrow> (error + 'a list) option" where
  "getContributors repos_getContributors getNextPage =
     (case repos_getContributors of
        Inl err \<Rightarrow> Some (Inl err)
      | Inr contributors \<Rightarrow> getRemainingPages getNextPage contributors None)"

definition getCommits ::
  "error + 'a page \<Rightarrow> ('a page \<Rightarrow> error + 'a page) \<Rightarrow> (error + 'a list) option" where
  "getCommits repos_getCommits getNextPage =
     (case repos_getCommits of
        Inl err \<Rightarrow> Some (Inl err)
      | Inr commits \<Rightarrow> getRemainingPages getNextPage commits None)"

text \<open>
  The hosting adapter \<^verbatim>\<open>this.github\<close>, as far as the listing of the pull requests can use
  it: \<^verbatim>\<open>pullRequests.getAll\<close>, which takes the state of the pull requests asked for and
  answers with one page, and \<^verbatim>\<open>getNextPage\<close>.
\<close>

record 'a github =
  github_pullRequests_getAll :: "string \<Rightarrow> error + 'a page"
  github_getNextPage :: "'a page \<Rightarrow> error + 'a page"

text \<open>
  \<^verbatim>\<open>getAllOpenPullRequests\<close> calls \<^verbatim>\<open>pullRequests.getAll\<close> with the state \<^verbatim>\<open>'open'\<close> and its own
  callback: the caller receives the adapter's answer to this one request.
\<close>

definition getAllOpenPullRequests :: "'a github \<Rightarrow> error + 'a page" where
  "getAllOpenPullRequests github = github_pullRequests_getAll github ''open''"

text \<open>
  The pages of a run: each page but the last is answered by \<open>getNextPage\<close> with the page
  that follows it.
\<close>

fun page_chain :: "('a page \<Rightarrow> error + 'a page) \<Rightarrow> 'a page list \<Rightarrow> bool" where
  "page_chain getNextPage [] = True"
| "page_chain getNextPage [p] = True"
| "page_chain getNextPage (p # q # ps) = (getNextPage p = Inr q \<and> page_chain getNextPage (q # ps))"

subsection \<open>isBehindMaster\<close>

record comparison =
  ahead_by :: int
  behind_by :: int

text \<open>The adapter's \<^verbatim>\<open>compareCommits\<close> takes the base and the head.\<close>

definition isBehindMaster ::
  "(string \<Rightarrow> string \<Rightarrow> error + comparison) \<Rightarrow> string \<Rightarrow> error + (bool \<times> int)" where
  "isBehindMaster compareCommits sha =
     (case compareCommits ''master'' sha of
        Inl err \<Rightarrow> Inl err
      | Inr data \<Rightarrow> Inr (behind_by data > 0, behind_by data))"

subsection \<open>triggerTravisForPullRequest\<close>

text \<open>
  A function whose callback chain can end in an uncaught JavaScript exception either invokes
  its callback or throws.
\<close>

datatype exn = TypeError

datatype 'a outcome = Callback "error + 'a" | Throws exn

record build =
  build_id :: nat
  build_pull_request_number :: nat

record builds_response =
  builds :: "build list option"

record restart_response =
  restart_result :: bool

text \<open>
  The CI adapter invokes the callback of \<^verbatim>\<open>travis.builds\<close> with \<^verbatim>\<open>(err, response)\<close>; both
  arguments are kept, since the source reads \<open>response\<close> whatever \<open>err\<close> is. Reading
  \<^verbatim>\<open>response.builds\<close> of an absent response throws. \<^verbatim>\<open>_.find\<close> is \<^const>\<open>List.find\<close>, and finds
  nothing in an absent list. The second component of the result lists the builds whose
  restart was requested.
\<close>

definition triggerTravisForPullRequest ::
  "nat \<Rightarrow> error option \<times> builds_response option \<Rightarrow> (nat \<Rightarrow> error + restart_response)
     \<Rightarrow> bool outcome \<times> nat list" where
  "triggerTravisForPullRequest pull_request_number travis_builds travis_builds_restart =
     (case travis_builds of (err, response) \<Rightarrow>
        (case response of
           None \<Rightarrow> (Throws TypeError, [])
         | Some response \<Rightarrow>
            (case (case builds response of
                     None \<Rightarrow> None
                   | Some bs \<Rightarrow>
                       List.find (\<lambda>build. build_pull_request_number build = pull_request_number) bs)
             of
               None \<Rightarrow> (Callback (Inl (NoPullRequestWith pull_request_number)), [])
             | Some pr \<Rightarrow>
                 (case travis_builds_restart (build_id pr) of
                    Inl err \<Rightarrow> (Callback (Inl err), [build_id pr])
                  | Inr restartResp \<Rightarrow>
                      (Callback (Inr (restart_result restartResp)), [build_id pr])))))"

text \<open>The builds of a response that the search goes through.\<close>

definition builds_of :: "builds_response \<Rightarrow> build list" where
  "builds_of response = (case builds response of None \<Rightarrow> [] | Some bs \<Rightarrow> bs)"

subsection \<open>issueCommentHandler\<close>

record user =
  user_login :: string

record commit =
  commit_sha :: string
  commit_committer :: "user option"

record issue =
  issue_number :: nat
  issue_pull_request :: "string option"

record payload =
  payload_issue :: issue

datatype remote_call =
  GetLastCommitOnPullRequest nat
| PerformCompleteValidation string string bool

text \<open>
  The repository client's \<^verbatim>\<open>getLastCommitOnPullRequest\<close> and the validation pipeline's
  \<^verbatim>\<open>performCompleteValidation\<close> are parameters: the first gives the \<^verbatim>\<open>(err, commit)\<close> that
  its callback receives, the second what it does with the handler's callback. The fields of
  the payload and of the commit carry the name of their object as a prefix. The handler
  reads \<^verbatim>\<open>commit.committer.login\<close> without looking at \<open>err\<close>, which throws when the commit or
  its committer is absent. \<^verbatim>\<open>callback()\<close> is \<open>Callback (Inr None)\<close>. The second component of
  the result lists the calls made.
\<close>

definition issueCommentHandler ::
  "payload \<Rightarrow> (nat \<Rightarrow> error option \<times> commit option)
     \<Rightarrow> (string \<Rightarrow> string \<Rightarrow> bool \<Rightarrow> 'v option outcome)
     \<Rightarrow> 'v option outcome \<times> remote_call list" where
  "issueCommentHandler payload getLastCommitOnPullRequest performCompleteValidation =
     (let prNumber = issue_number (payload_issue payload) in
      if issue_pull_request (payload_issue payload) = None then (Callback (Inr None), [])
      else
        (case getLastCommitOnPullRequest prNumber of (err, commit) \<Rightarrow>
           (case commit of
              None \<Rightarrow> (Throws TypeError, [GetLastCommitOnPullRequest prNumber])
            | Some commit \<Rightarrow>
               (case commit_committer commit of
                  None \<Rightarrow> (Throws TypeError, [GetLastCommitOnPullRequest prNumber])
                | Some c \<Rightarrow>
                   (performCompleteValidation (commit_sha commit) (user_login c) True,
                    [GetLastCommitOnPullRequest prNumber,
                     PerformCompleteValidation (commit_sha commit) (user_login c) True])))))"

subsection \<open>confirmWebhookExists\<close>

record hook_config =
  config_url :: "string option"

record hook =
  hook_id :: nat
  hook_config :: "hook_config option"
  hook_events :: "string list"

text \<open>
  The hosting service keeps the webhooks of the repository and the id it gives to the next
  hook it creates. A run of the client meets the faults of its transport: the error, if any,
  with which the listing, the deletion of a given hook and the creation fail. A call that
  fails leaves the service as it is; \<^verbatim>\<open>getHooks\<close> answers with the hooks, \<^verbatim>\<open>deleteHook\<close>
  removes the hook with the id, \<^verbatim>\<open>createHook\<close> adds a hook with the next id, the URL and the
  events.
\<close>

record provider =
  provider_hooks :: "hook list"
  provider_next_id :: nat

record faults =
  getHooks_fault :: "error option"
  deleteHook_fault :: "nat \<Rightarrow> error option"
  createHook_fault :: "error option"

datatype hook_call = GetHooks | DeleteHook nat | CreateHook string "string list"

definition getHooks :: "faults \<Rightarrow> provider \<Rightarrow> error + hook list" where
  "getHooks f p = (case getHooks_fault f of Some err \<Rightarrow> Inl err | None \<Rightarrow> Inr (provider_hooks p))"

definition deleteHook :: "faults \<Rightarrow> nat \<Rightarrow> provider \<Rightarrow> error option \<times> provider" where
  "deleteHook f i p =
     (case deleteHook_fault f i of
        Some err \<Rightarrow> (Some err, p)
      | None \<Rightarrow> (None, p\<lparr>provider_hooks := filter (\<lambda>h. hook_id h \<noteq> i) (provider_hooks p)\<rparr>))"

definition createHook ::
  "faults \<Rightarrow> string \<Rightarrow> string list \<Rightarrow> provider \<Rightarrow> error option \<times> provider" where
  "createHook f url events p =
     (case createHook_fault f of
        Some err \<Rightarrow> (Some err, p)
      | None \<Rightarrow>
          (None,
           p\<lparr>provider_hooks :=
                provider_hooks p @
                  [\<lparr>hook_id = provider_next_id p,
                    hook_config = Some \<lparr>config_url = Some url\<rparr>,
                    hook_events = events\<rparr>],
             provider_next_id := Suc (provider_next_id p)\<rparr>))"

text \<open>The test \<^verbatim>\<open>hook.config && url == hook.config.url\<close>.\<close>

definition url_matches :: "string \<Rightarrow> hook \<Rightarrow> bool" where
  "url_matches url hook =
     (case hook_config hook of None \<Rightarrow> False | Some c \<Rightarrow> config_url c = Some url)"

text \<open>
  The \<^verbatim>\<open>forEach\<close> over the hooks, with the variables \<open>found\<close> and \<open>hookRemovers\<close> it
  updates. A remover is the closure that deletes \<^verbatim>\<open>hook.id\<close>; the list holds the ids.
\<close>

fun forEach_hook ::
  "string \<Rightarrow> string list \<Rightarrow> hook list \<Rightarrow> bool \<Rightarrow> nat list \<Rightarrow> bool \<times> nat list" where
  "forEach_hook url events [] found hookRemovers = (found, hookRemovers)"
| "forEach_hook url events (hook # rest) found hookRemovers =
     (if url_matches url hook then
        (if arraysMatch (hook_events hook) events
         then forEach_hook url events rest True hookRemovers
         else forEach_hook url events rest found (hookRemovers @ [hook_id hook]))
      else forEach_hook url events rest found hookRemovers)"

text \<open>
  \<^verbatim>\<open>async.parallel\<close> over the removers: every deletion is requested, and the final callback
  receives the first error, if there is one (the deletions complete in the order in which
  they were requested).
\<close>

fun parallel :: "faults \<Rightarrow> nat list \<Rightarrow> provider \<Rightarrow> error option \<times> provider" where
  "parallel f [] p = (None, p)"
| "parallel f (i # rest) p =
     (case deleteHook f i p of (err, p') \<Rightarrow>
        (case parallel f rest p' of (err', p'') \<Rightarrow>
           ((case err of Some e \<Rightarrow> Some e | None \<Rightarrow> err'), p'')))"

text \<open>
  \<^verbatim>\<open>confirmWebhookExists(url, events, callback)\<close>, run with the faults \<open>f\<close> on the hosting
  service \<open>p\<close>: what the callback receives, the service afterwards, and the calls made.
\<close>

definition confirmWebhookExists ::
  "string \<Rightarrow> string list \<Rightarrow> faults \<Rightarrow> provider
     \<Rightarrow> (error + unit) \<times> provider \<times> hook_call list" where
  "confirmWebhookExists url events f p =
     (case getHooks f p of
        Inl err \<Rightarrow> (Inl err, p, [GetHooks])
      | Inr hooks \<Rightarrow>
         (case forEach_hook url events hooks False [] of (found, hookRemovers) \<Rightarrow>
            (case parallel f hookRemovers p of
               (Some err, p') \<Rightarrow> (Inl err, p', GetHooks # map DeleteHook hookRemovers)
             | (None, p') \<Rightarrow>
                 if \<not> found then
                   (case createHook f url events p' of
                      (Some err, p'') \<Rightarrow>
                        (Inl err, p'',
                         GetHooks # map DeleteHook hookRemovers @ [CreateHook url events])
                    | (None, p'') \<Rightarrow>
                        (Inr (), p'',
                         GetHooks # map DeleteHook hookRemovers @ [CreateHook url events]))
                 else (Inr (), p', GetHooks # map DeleteHook hookRemovers))))"

text \<open>
  A hook for the URL is wanted when its events match the requested ones, and stale
  otherwise. The hooks for a URL are those that the test of the source accepts.
\<close>

definition wanted :: "string \<Rightarrow> string list \<Rightarrow> hook \<Rightarrow> bool" where
  "wanted url events h \<longleftrightarrow> url_matches url h \<and> arraysMatch (hook_events h) events"

definition stale :: "string \<Rightarrow> string list \<Rightarrow> hook \<Rightarrow> bool" where
  "stale url events h \<longleftrightarrow> url_matches url h \<and> \<not> arraysMatch (hook_events h) events"

definition hooks_for :: "string \<Rightarrow> provider \<Rightarrow> hook list" where
  "hooks_for url p = filter (url_matches url) (provider_hooks p)"

text \<open>The ids that the removers of a run delete: those of the stale hooks, in their order.\<close>

definition removers :: "string \<Rightarrow> string list \<Rightarrow> provider \<Rightarrow> nat list" where
  "removers url events p = map hook_id (filter (stale url events) (provider_hooks p))"

subsection \<open>Concrete inputs\<close>

definition no_faults :: faults where
  "no_faults = \<lparr>getHooks_fault = None, deleteHook_fault = (\<lambda>i. None), createHook_fault = None\<rparr>"

definition web_hook :: "nat \<Rightarrow> string \<Rightarrow> string list \<Rightarrow> hook" where
  "web_hook i url events =
     \<lparr>hook_id = i, hook_config = Some \<lparr>config_url = Some url\<rparr>, hook_events = events\<rparr>"

definition page1 :: "nat page" where
  "page1 = \<lparr>items = [1, 2], meta = ''page=1''\<rparr>"

definition page2 :: "nat page" where
  "page2 = \<lparr>items = [3], meta = ''page=2''\<rparr>"

text \<open>An adapter with a second page, whose request for a third page fails.\<close>

definition two_pages :: "nat page \<Rightarrow> error + nat page" where
  "two_pages p =
     (if meta p = ''page=1'' then Inr page2 else Inl (TransportError ''ETIMEDOUT''))"

text \<open>An adapter with a second page and no third.\<close>

definition two_pages_end :: "nat page \<Rightarrow> error + nat page" where
  "two_pages_end p = (if meta p = ''page=1'' then Inr page2 else Inl NoNextPage)"

text \<open>
  A hosting adapter for a repository with three open pull requests, listed in two pages.
\<close>

definition two_page_github :: "nat github" where
  "two_page_github =
     \<lparr>github_pullRequests_getAll =
        (\<lambda>state. if state = ''open'' then Inr page1 else Inr \<lparr>items = [], meta = []\<rparr>),
      github_getNextPage = two_pages_end\<rparr>"

text \<open>Three recent builds, two of them for the pull request 15.\<close>

definition recent_builds :: builds_response where
  "recent_builds =
     \<lparr>builds = Some [\<lparr>build_id = 7, build_pull_request_number = 12\<rparr>,
                     \<lparr>build_id = 9, build_pull_request_number = 15\<rparr>,
                     \<lparr>build_id = 11, build_pull_request_number = 15\<rparr>]\<rparr>"

text \<open>The payload of a comment on the issue 42, which is not a pull request.\<close>

definition plain_issue_comment :: payload where
  "plain_issue_comment =
     \<lparr>payload_issue = \<lparr>issue_number = 42, issue_pull_request = None\<rparr>\<rparr>"

text \<open>
  A service with a hook for the URL of the tools whose events are out of date, and a hook
  for another URL; the service once the hook has been replaced.
\<close>

definition stale_provider :: provider where
  "stale_provider =
     \<lparr>provider_hooks = [web_hook 1 ''http://tools/hook'' [''push''],
                         web_hook 2 ''http://other/hook'' [''push'']],
      provider_next_id = 3\<rparr>"

definition reconciled_provider :: provider where
  "reconciled_provider =
     \<lparr>provider_hooks = [web_hook 2 ''http://other/hook'' [''push''],
                         web_hook 3 ''http://tools/hook'' [''push'', ''pull_request'']],
      provider_next_id = 4\<rparr>"

text \<open>A service with two hooks for the same URL and the same events.\<close>

definition twin_provider :: provider where
  "twin_provider =
     \<lparr>provider_hooks = [web_hook 1 ''http://tools/hook'' [''push''],
                         web_hook 2 ''http://tools/hook'' [''push'']],
      provider_next_id = 3\<rparr>"

text \<open>A service with two stale hooks for the URL, and a transport on which the deletion of
  the second one fails.\<close>

definition two_stale_provider :: provider where
  "two_stale_provider =
     \<lparr>provider_hooks = [web_hook 1 ''http://tools/hook'' [''push''],
                         web_hook 2 ''http://tools/hook'' [''issues'']],
      provider_next_id = 3\<rparr>"

definition second_deletion_fails :: faults where
  "second_deletion_fails =
     \<lparr>getHooks_fault = None,
      deleteHook_fault = (\<lambda>i. if i = 2 then Some (TransportError ''500'') else None),
      createHook_fault = None\<rparr>"

section \<open>Properties\<close>

subsection \<open>The comparison of event lists\<close>

lemma intersection_loop_set:
  "set (intersection_loop result xs other) = set result \<union> (set xs \<inter> set other)"
  by (induction result xs other rule: intersection_loop.induct) auto

lemma intersection_loop_distinct:
  "distinct result \<Longrightarrow> distinct (intersection_loop result xs other)"
  by (induction result xs other rule: intersection_loop.induct) auto

lemma intersection_length:
  "length (intersection left right) = card (set left \<inter> set right)"
proof -
  have "distinct (intersection left right)"
    by (simp add: intersection_def intersection_loop_distinct)
  then have "length (intersection left right) = card (set (intersection left right))"
    by (simp add: distinct_card)
  then show ?thesis
    by (simp add: intersection_def intersection_loop_set)
qed

lemma arraysMatch_card:
  "arraysMatch left right \<longleftrightarrow>
     card (set left \<inter> set right) = length left \<and> card (set left \<inter> set right) = length right"
  by (simp add: arraysMatch_def Let_def intersection_length)

lemma card_inter_full:
  assumes "card (set xs \<inter> set ys) = length xs"
  shows "distinct xs \<and> set xs \<subseteq> set ys"
proof -
  have le1: "card (set xs \<inter> set ys) \<le> card (set xs)"
    by (rule card_mono) auto
  have le2: "card (set xs) \<le> length xs"
    by (rule card_length)
  from assms le1 le2 have c: "card (set xs) = length xs" by linarith
  then have d: "distinct xs" by (rule card_distinct)
  from assms c have "card (set xs \<inter> set ys) = card (set xs)" by simp
  then have "set xs \<inter> set ys = set xs"
    by (intro card_subset_eq) auto
  with d show ?thesis by blast
qed

lemma arraysMatch_char:
  "arraysMatch left right \<longleftrightarrow> distinct left \<and> distinct right \<and> set left = set right"
proof
  assume m: "arraysMatch left right"
  then have l: "card (set left \<inter> set right) = length left"
    and r: "card (set right \<inter> set left) = length right"
    by (simp_all add: arraysMatch_card Int_commute)
  from card_inter_full [OF l] card_inter_full [OF r]
  show "distinct left \<and> distinct right \<and> set left = set right" by blast
next
  assume a: "distinct left \<and> distinct right \<and> set left = set right"
  then have dl: "distinct left" and dr: "distinct right"
    and i: "set left \<inter> set right = set left" and j: "set left \<inter> set right = set right"
    by simp_all
  have "card (set left \<inter> set right) = length left"
    unfolding i by (rule distinct_card [OF dl])
  moreover have "card (set left \<inter> set right) = length right"
    unfolding j by (rule distinct_card [OF dr])
  ultimately show "arraysMatch left right" by (simp add: arraysMatch_card)
qed

text \<open>
  C10, as the code has it. \<open>arraysMatch\<close> is symmetric and does not depend on the order of
  either array; it holds exactly for two duplicate-free arrays with the same set of values,
  so that on duplicate-free arrays it is set equality, and with equal sets it holds only
  when both arrays are duplicate-free. It agrees with set equality exactly when both arrays
  are duplicate-free or their sets of values differ. An array with a repeated element does
  not match itself.
\<close>

theorem arraysMatch_symmetric_order_insensitive:
  "arraysMatch left right = arraysMatch right left
   \<and> (mset left = mset left' \<and> mset right = mset right'
        \<longrightarrow> arraysMatch left right = arraysMatch left' right')
   \<and> (arraysMatch left right \<longleftrightarrow> distinct left \<and> distinct right \<and> set left = set right)
   \<and> (distinct left \<and> distinct right \<longrightarrow> (arraysMatch left right \<longleftrightarrow> set left = set right))
   \<and> (set left = set right \<longrightarrow> (arraysMatch left right \<longleftrightarrow> distinct left \<and> distinct right))
   \<and> ((arraysMatch left right \<longleftrightarrow> set left = set right)
        \<longleftrightarrow> (distinct left \<and> distinct right) \<or> set left \<noteq> set right)
   \<and> (\<not> distinct left \<longrightarrow> \<not> arraysMatch left left)"
proof -
  have sym: "arraysMatch left right = arraysMatch right left"
    by (auto simp: arraysMatch_char)
  have perm: "mset left = mset left' \<and> mset right = mset right'
        \<longrightarrow> arraysMatch left right = arraysMatch left' right'"
  proof
    assume "mset left = mset left' \<and> mset right = mset right'"
    then have ml: "mset left = mset left'" and mr: "mset right = mset right'"
      by simp_all
    note mset_eq_setD [OF ml] mset_eq_setD [OF mr]
      mset_eq_imp_distinct_iff [OF ml] mset_eq_imp_distinct_iff [OF mr]
    then show "arraysMatch left right = arraysMatch left' right'"
      by (simp add: arraysMatch_char)
  qed
  have agree: "(arraysMatch left right \<longleftrightarrow> set left = set right)
        \<longleftrightarrow> (distinct left \<and> distinct right) \<or> set left \<noteq> set right"
    unfolding arraysMatch_char by blast
  show ?thesis
  proof (intro conjI)
    show "arraysMatch left right = arraysMatch right left"
      by (rule sym)
    show "mset left = mset left' \<and> mset right = mset right'
        \<longrightarrow> arraysMatch left right = arraysMatch left' right'"
      by (rule perm)
    show "arraysMatch left right \<longleftrightarrow> distinct left \<and> distinct right \<and> set left = set right"
      by (rule arraysMatch_char)
    show "distinct left \<and> distinct right \<longrightarrow> (arraysMatch left right \<longleftrightarrow> set left = set right)"
      by (simp add: arraysMatch_char)
    show "set left = set right \<longrightarrow> (arraysMatch left right \<longleftrightarrow> distinct left \<and> distinct right)"
      by (simp add: arraysMatch_char)
    show "(arraysMatch left right \<longleftrightarrow> set left = set right)
        \<longleftrightarrow> (distinct left \<and> distinct right) \<or> set left \<noteq> set right"
      by (rule agree)
    show "\<not> distinct left \<longrightarrow> \<not> arraysMatch left left"
      by (simp add: arraysMatch_char)
  qed
qed

theorem arraysMatch_witness:
  "arraysMatch [''push'', ''pull_request''] [''pull_request'', ''push'']
   \<and> \<not> arraysMatch [''push'', ''push''] [''push'', ''push'']
   \<and> \<not> arraysMatch [''push'', ''push''] [''push'']
   \<and> mset [''push'', ''pull_request''] = mset [''pull_request'', ''push'']"
  using arraysMatch_symmetric_order_insensitive
    [of "[''push'', ''pull_request'']" "[''pull_request'', ''push'']"
        "[''pull_request'', ''push'']" "[''push'', ''pull_request'']"]
    arraysMatch_symmetric_order_insensitive
    [of "[''push'', ''push'']" "[''push'', ''push'']" "[]" "[]"]
    arraysMatch_symmetric_order_insensitive
    [of "[''push'', ''push'']" "[''push'']" "[]" "[]"]
  by (simp add: arraysMatch_def intersection_def)

text \<open>
  The claim C10 as stated fails: \<open>arraysMatch\<close> also agrees with set equality on arrays
  that are not both duplicate-free, when their sets of values differ. Here neither holds,
  and the first array has a repeated element.
\<close>

theorem arraysMatch_agrees_beyond_duplicate_free:
  "\<not> arraysMatch [''push'', ''push''] [''issues'']
   \<and> set [''push'', ''push''] \<noteq> set [''issues'']
   \<and> \<not> distinct [''push'', ''push'']"
  by (simp add: arraysMatch_def intersection_def)

subsection \<open>Paginated listings\<close>

lemma getRemainingPages_chain:
  "page_chain nxt (p # ps) \<Longrightarrow> nxt (last (p # ps)) = Inl e \<Longrightarrow>
   getRemainingPages nxt p old = Some (Inr (allData old p @ concat (map items ps)))"
proof (induction ps arbitrary: p old)
  case Nil
  then show ?case
    using getRemainingPages.simps [of nxt p old] by simp
next
  case (Cons q qs)
  from Cons.prems have n: "nxt p = Inr q" and c: "page_chain nxt (q # qs)"
    and l: "nxt (last (q # qs)) = Inl e"
    by simp_all
  have "getRemainingPages nxt p old = getRemainingPages nxt q (Some (allData old p))"
    using getRemainingPages.simps [of nxt p old] n by simp
  also have "\<dots> = Some (Inr (allData (Some (allData old p)) q @ concat (map items qs)))"
    by (rule Cons.IH [OF c l])
  finally show ?case by (simp add: allData_def)
qed

lemma getRemainingPages_Some:
  assumes "getRemainingPages nxt p old = Some r"
  shows "\<exists>ps e. page_chain nxt (p # ps) \<and> nxt (last (p # ps)) = Inl e
           \<and> r = Inr (allData old p @ concat (map items ps))"
  using assms
proof (induction nxt p old r rule: getRemainingPages.raw_induct [rotated 1, consumes 1])
  case (1 grp nxt p old r)
  show ?case
  proof (cases "nxt p")
    case (Inl e)
    with 1(2) have "r = Inr (allData old p)" by simp
    with Inl show ?thesis
      by (intro exI [of _ "[]"] exI [of _ e]) simp
  next
    case (Inr q)
    with 1(2) have "grp nxt q (Some (allData old p)) = Some r" by simp
    from 1(1) [OF this] obtain qs e where c: "page_chain nxt (q # qs)"
      and l: "nxt (last (q # qs)) = Inl e"
      and r: "r = Inr (allData (Some (allData old p)) q @ concat (map items qs))"
      by blast
    from c l r Inr show ?thesis
      by (intro exI [of _ "q # qs"] exI [of _ e]) (simp add: allData_def)
  qed
qed

lemma getRemainingPages_iff:
  "getRemainingPages nxt p None = Some r \<longleftrightarrow>
     (\<exists>ps e. page_chain nxt (p # ps) \<and> nxt (last (p # ps)) = Inl e
        \<and> r = Inr (concat (map items (p # ps))))"
proof
  assume "getRemainingPages nxt p None = Some r"
  from getRemainingPages_Some [OF this] show
    "\<exists>ps e. page_chain nxt (p # ps) \<and> nxt (last (p # ps)) = Inl e
        \<and> r = Inr (concat (map items (p # ps)))"
    by (simp add: allData_def)
next
  assume "\<exists>ps e. page_chain nxt (p # ps) \<and> nxt (last (p # ps)) = Inl e
        \<and> r = Inr (concat (map items (p # ps)))"
  then obtain ps e where c: "page_chain nxt (p # ps)" and l: "nxt (last (p # ps)) = Inl e"
    and r: "r = Inr (concat (map items (p # ps)))"
    by blast
  from getRemainingPages_chain [OF c l, of None] r
  show "getRemainingPages nxt p None = Some r"
    by (simp add: allData_def)
qed

lemma two_pages_run:
  "getRemainingPages two_pages page1 None = Some (Inr [1, 2, 3])"
  using getRemainingPages_chain [of two_pages page1 "[page2]" "TransportError ''ETIMEDOUT''" None]
  by (simp add: two_pages_def page1_def page2_def allData_def)

lemma two_pages_end_run:
  "getRemainingPages two_pages_end page1 None = Some (Inr [1, 2, 3])"
  using getRemainingPages_chain [of two_pages_end page1 "[page2]" NoNextPage None]
  by (simp add: two_pages_end_def page1_def page2_def allData_def)

text \<open>
  C2. For \<open>getContributors\<close> and \<open>getCommits\<close>: an error of the first request is what the
  callback receives. When the first page \<open>p\<close> and the pages \<open>ps\<close> after it have been returned
  and the request that follows the last of them fails with any error \<open>e\<close> (a transport error
  as well as the end of the pages), the callback receives, as a success, the items of all
  these pages.
\<close>

theorem later_page_error_delivers_accumulated:
  assumes "fetch = getContributors \<or> fetch = getCommits"
  shows "fetch (Inl err) nxt = Some (Inl err)
    \<and> (page_chain nxt (p # ps) \<and> nxt (last (p # ps)) = Inl e
         \<longrightarrow> fetch (Inr p) nxt = Some (Inr (concat (map items (p # ps)))))"
proof -
  have "page_chain nxt (p # ps) \<and> nxt (last (p # ps)) = Inl e
         \<longrightarrow> getRemainingPages nxt p None = Some (Inr (concat (map items (p # ps))))"
    using getRemainingPages_iff [of nxt p "Inr (concat (map items (p # ps)))"] by blast
  with assms show ?thesis
    by (auto simp: getContributors_def getCommits_def)
qed

theorem later_page_error_witness:
  "getCommits (Inl (TransportError ''ECONNRESET'')) two_pages
     = Some (Inl (TransportError ''ECONNRESET''))
   \<and> page_chain two_pages [page1, page2]
   \<and> two_pages (last [page1, page2]) = Inl (TransportError ''ETIMEDOUT'')
   \<and> getCommits (Inr page1) two_pages = Some (Inr [1, 2, 3])"
  using later_page_error_delivers_accumulated
    [of getCommits "TransportError ''ECONNRESET''" two_pages page1 "[page2]"
        "TransportError ''ETIMEDOUT''"]
  by (simp add: two_pages_def page1_def page2_def)

text \<open>
  C5. For \<open>getContributors\<close> and \<open>getCommits\<close>: the callback receives the list \<open>result\<close> as a
  success exactly when the first request returned a page \<open>p\<close>, the requests after it returned
  the pages \<open>ps\<close> one after the other, the request after the last page failed, and \<open>result\<close>
  is the concatenation, in this order, of the items of \<open>p\<close> and \<open>ps\<close>; its length is then the
  sum of the numbers of items of these pages.
\<close>

theorem paginated_result_is_concatenation:
  assumes "fetch = getContributors \<or> fetch = getCommits"
  shows "fetch first nxt = Some (Inr result) \<longleftrightarrow>
    (\<exists>p ps e. first = Inr p \<and> page_chain nxt (p # ps) \<and> nxt (last (p # ps)) = Inl e
       \<and> result = concat (map items (p # ps))
       \<and> length result = sum_list (map (\<lambda>q. length (items q)) (p # ps)))"
proof (cases first)
  case (Inl err)
  with assms show ?thesis
    by (auto simp: getContributors_def getCommits_def)
next
  case (Inr p)
  have len: "length (concat (map items qs)) = sum_list (map (\<lambda>q. length (items q)) qs)"
    for qs :: "'a page list"
    by (simp add: length_concat comp_def)
  have eq: "(result = concat (map items qs)
        \<and> length result = sum_list (map (\<lambda>q. length (items q)) qs))
      = (result = concat (map items qs))"
    for qs :: "'a page list"
    using len [of qs] by auto
  from assms Inr have "fetch first nxt = getRemainingPages nxt p None"
    by (auto simp: getContributors_def getCommits_def)
  then have "fetch first nxt = Some (Inr result) \<longleftrightarrow>
    (\<exists>ps e. page_chain nxt (p # ps) \<and> nxt (last (p # ps)) = Inl e
       \<and> result = concat (map items (p # ps)))"
    using getRemainingPages_iff [of nxt p "Inr result"] by simp
  also have "\<dots> \<longleftrightarrow> (\<exists>ps e. page_chain nxt (p # ps) \<and> nxt (last (p # ps)) = Inl e
       \<and> result = concat (map items (p # ps))
       \<and> length result = sum_list (map (\<lambda>q. length (items q)) (p # ps)))"
    by (simp only: eq)
  finally show ?thesis using Inr by simp
qed

theorem paginated_result_witness:
  "getContributors (Inr page1) two_pages = Some (Inr [1, 2, 3])"
proof -
  have "\<exists>p ps e. Inr page1 = Inr p \<and> page_chain two_pages (p # ps)
       \<and> two_pages (last (p # ps)) = Inl e
       \<and> [1, 2, 3] = concat (map items (p # ps))
       \<and> length [1, 2, 3 :: nat] = sum_list (map (\<lambda>q. length (items q)) (p # ps))"
    by (intro exI [of _ page1] exI [of _ "[page2]"] exI [of _ "TransportError ''ETIMEDOUT''"])
      (simp add: two_pages_def page1_def page2_def)
  with paginated_result_is_concatenation [of getContributors "Inr page1" two_pages "[1, 2, 3]"]
  show ?thesis by simp
qed

lemma getAllOpenPullRequests_single_request:
  "getAllOpenPullRequests (github\<lparr>github_getNextPage := g\<rparr>)
     = github_pullRequests_getAll github ''open''"
  by (simp add: getAllOpenPullRequests_def)

text \<open>
  C6. The code at an input where the claim fails: a repository with three open pull
  requests, which the hosting service lists in two pages. \<open>getAllOpenPullRequests\<close> hands
  the first page, with two pull requests, to its callback, although the adapter has a next
  page; on the same pages the aggregation of \<open>getContributors\<close> and \<open>getCommits\<close> delivers
  all three.
\<close>

theorem getAllOpenPullRequests_first_page_only:
  "getAllOpenPullRequests two_page_github = Inr page1
   \<and> items page1 = [1, 2]
   \<and> github_getNextPage two_page_github page1 = Inr page2
   \<and> getContributors (github_pullRequests_getAll two_page_github ''open'')
        (github_getNextPage two_page_github)
       = Some (Inr [1, 2, 3])
   \<and> getCommits (github_pullRequests_getAll two_page_github ''open'')
        (github_getNextPage two_page_github)
       = Some (Inr [1, 2, 3])"
  using two_pages_end_run
  by (simp add: getAllOpenPullRequests_def getContributors_def getCommits_def
      two_page_github_def two_pages_end_def page1_def)

subsection \<open>isBehindMaster\<close>

text \<open>
  C8. When the comparison of \<open>sha\<close> with \<^verbatim>\<open>master\<close> succeeds, \<open>isBehindMaster\<close> delivers the
  pair of a boolean, true exactly when the distance \<open>behind_by\<close> is positive, and this
  distance; for the distance 0, which is what the service reports for the tip of the
  default branch, the pair is \<open>(False, 0)\<close>. When the comparison fails, it delivers the
  error of the transport.
\<close>

theorem isBehindMaster_result:
  "(compareCommits ''master'' s = Inr data \<longrightarrow>
      isBehindMaster compareCommits s = Inr (0 < behind_by data, behind_by data))
   \<and> (compareCommits ''master'' s = Inr data \<and> behind_by data = 0 \<longrightarrow>
        isBehindMaster compareCommits s = Inr (False, 0))
   \<and> (compareCommits ''master'' s = Inl err \<longrightarrow> isBehindMaster compareCommits s = Inl err)"
  by (simp add: isBehindMaster_def)

theorem isBehindMaster_witness:
  "isBehindMaster (\<lambda>base head. Inr \<lparr>ahead_by = 0, behind_by = 0\<rparr>) ''4f2a'' = Inr (False, 0)
   \<and> isBehindMaster (\<lambda>base head. Inr \<lparr>ahead_by = 1, behind_by = 3\<rparr>) ''4f2a'' = Inr (True, 3)
   \<and> isBehindMaster (\<lambda>base head. Inl (TransportError ''Not Found'')) ''4f2a''
       = Inl (TransportError ''Not Found'')"
  using
    isBehindMaster_result [of "\<lambda>base head. Inr \<lparr>ahead_by = 0, behind_by = 0\<rparr>" "''4f2a''"
      "\<lparr>ahead_by = 0, behind_by = 0\<rparr>" undefined]
    isBehindMaster_result [of "\<lambda>base head. Inr \<lparr>ahead_by = 1, behind_by = 3\<rparr>" "''4f2a''"
      "\<lparr>ahead_by = 1, behind_by = 3\<rparr>" undefined]
    isBehindMaster_result [of "\<lambda>base head. Inl (TransportError ''Not Found'')" "''4f2a''"
      undefined "TransportError ''Not Found''"]
  by simp



subsection \<open>triggerTravisForPullRequest\<close>

text \<open>
  C4. When the CI service has returned a response: if no build of the returned list has the
  pull-request number \<open>n\<close>, the callback receives the not-found error and no restart is
  requested; otherwise the restart of exactly one build, which is in the list and has the
  number \<open>n\<close>, is requested, and the callback receives the result of a restart that
  succeeds, and the error of one that fails.
\<close>

theorem triggerTravis_restarts_one_matching_build:
  assumes "travis_builds = (err, Some response)"
  shows "((\<forall>b\<in>set (builds_of response). build_pull_request_number b \<noteq> n) \<longrightarrow>
            triggerTravisForPullRequest n travis_builds restart
              = (Callback (Inl (NoPullRequestWith n)), []))
    \<and> ((\<exists>b\<in>set (builds_of response). build_pull_request_number b = n) \<longrightarrow>
         (\<exists>pr. pr \<in> set (builds_of response) \<and> build_pull_request_number pr = n
            \<and> snd (triggerTravisForPullRequest n travis_builds restart) = [build_id pr]
            \<and> (\<forall>restartResp. restart (build_id pr) = Inr restartResp \<longrightarrow>
                 fst (triggerTravisForPullRequest n travis_builds restart)
                   = Callback (Inr (restart_result restartResp)))
            \<and> (\<forall>e. restart (build_id pr) = Inl e \<longrightarrow>
                 fst (triggerTravisForPullRequest n travis_builds restart) = Callback (Inl e))))"
proof -
  let ?found = "case builds response of
                  None \<Rightarrow> None
                | Some bs \<Rightarrow> List.find (\<lambda>build. build_pull_request_number build = n) bs"
  have none: "?found = None \<longleftrightarrow>
      (\<forall>b\<in>set (builds_of response). build_pull_request_number b \<noteq> n)"
    by (auto simp: builds_of_def find_None_iff split: option.splits)
  have some: "pr \<in> set (builds_of response) \<and> build_pull_request_number pr = n"
    if "?found = Some pr" for pr
    using that by (auto simp: builds_of_def find_Some_iff split: option.splits)
  show ?thesis
  proof (cases ?found)
    case None
    with none assms show ?thesis
      by (simp add: triggerTravisForPullRequest_def)
  next
    case (Some pr)
    with none have ex: "\<not> (\<forall>b\<in>set (builds_of response). build_pull_request_number b \<noteq> n)"
      by simp
    have run: "triggerTravisForPullRequest n travis_builds restart =
        (case restart (build_id pr) of
           Inl e \<Rightarrow> (Callback (Inl e), [build_id pr])
         | Inr restartResp \<Rightarrow> (Callback (Inr (restart_result restartResp)), [build_id pr]))"
      using Some assms by (simp add: triggerTravisForPullRequest_def)
    have "snd (triggerTravisForPullRequest n travis_builds restart) = [build_id pr]"
      and "\<forall>restartResp. restart (build_id pr) = Inr restartResp \<longrightarrow>
             fst (triggerTravisForPullRequest n travis_builds restart)
               = Callback (Inr (restart_result restartResp))"
      and "\<forall>e. restart (build_id pr) = Inl e \<longrightarrow>
             fst (triggerTravisForPullRequest n travis_builds restart) = Callback (Inl e)"
      by (simp_all add: run split: sum.splits)
    with some [OF Some] ex show ?thesis by blast
  qed
qed

theorem triggerTravis_witness:
  "triggerTravisForPullRequest 15 (None, Some recent_builds) (\<lambda>i. Inr \<lparr>restart_result = True\<rparr>)
     = (Callback (Inr True), [9])
   \<and> triggerTravisForPullRequest 99 (None, Some recent_builds) (\<lambda>i. Inr \<lparr>restart_result = True\<rparr>)
     = (Callback (Inl (NoPullRequestWith 99)), [])"
  using
    triggerTravis_restarts_one_matching_build
      [of "(None, Some recent_builds)" None recent_builds 15 "\<lambda>i. Inr \<lparr>restart_result = True\<rparr>"]
    triggerTravis_restarts_one_matching_build
      [of "(None, Some recent_builds)" None recent_builds 99 "\<lambda>i. Inr \<lparr>restart_result = True\<rparr>"]
  by (simp add: triggerTravisForPullRequest_def recent_builds_def builds_of_def)

text \<open>
  C9. The result of \<open>triggerTravisForPullRequest\<close> does not depend on the error of the
  listing of the builds. When the listing delivers no response, the run throws: the callback
  is not invoked, neither with the error of the listing nor otherwise.
\<close>

theorem triggerTravis_ignores_listing_error:
  "triggerTravisForPullRequest n (err, response) restart
     = triggerTravisForPullRequest n (err', response) restart
   \<and> triggerTravisForPullRequest n (err, None) restart = (Throws TypeError, [])
   \<and> fst (triggerTravisForPullRequest n (Some e, None) restart) \<noteq> Callback (Inl e)
   \<and> (\<forall>r. fst (triggerTravisForPullRequest n (Some e, None) restart) \<noteq> Callback r)"
  by (simp add: triggerTravisForPullRequest_def)

subsection \<open>issueCommentHandler\<close>

text \<open>
  C7. For a payload whose issue has no pull request, the handler invokes its callback with
  no error and no data, and makes no call: neither \<^verbatim>\<open>getLastCommitOnPullRequest\<close> of the
  repository client nor \<^verbatim>\<open>performCompleteValidation\<close> of the validation pipeline.
\<close>

theorem issueCommentHandler_ignores_plain_issue:
  assumes "issue_pull_request (payload_issue payload) = None"
  shows "issueCommentHandler payload getLastCommitOnPullRequest performCompleteValidation
           = (Callback (Inr None), [])"
  using assms by (simp add: issueCommentHandler_def)

theorem issueCommentHandler_witness:
  "issue_pull_request (payload_issue plain_issue_comment) = None
   \<and> issueCommentHandler plain_issue_comment
        (\<lambda>n. (Some (TransportError ''Not Found''), None))
        (\<lambda>s l recheck. Throws TypeError)
       = (Callback (Inr (None :: unit option)), [])"
  using issueCommentHandler_ignores_plain_issue
    [of plain_issue_comment "\<lambda>n. (Some (TransportError ''Not Found''), None)"
        "\<lambda>s l recheck. (Throws TypeError :: unit option outcome)"]
  by (simp add: plain_issue_comment_def)



subsection \<open>Webhook reconciliation\<close>

lemma forEach_hook_eq:
  "forEach_hook url events hs found acc =
     (found \<or> (\<exists>h\<in>set hs. wanted url events h),
      acc @ map hook_id (filter (stale url events) hs))"
  by (induction hs arbitrary: found acc) (auto simp: wanted_def stale_def)

lemma deleteHook_fst: "fst (deleteHook f i p) = deleteHook_fault f i"
  by (simp add: deleteHook_def split: option.splits)

lemma deleteHook_snd:
  "snd (deleteHook f i p) =
     (if deleteHook_fault f i = None
      then p\<lparr>provider_hooks := filter (\<lambda>h. hook_id h \<noteq> i) (provider_hooks p)\<rparr>
      else p)"
  by (simp add: deleteHook_def split: option.splits)

lemma parallel_fst_Cons:
  "fst (parallel f (i # rest) p) =
     (case deleteHook_fault f i of
        Some e \<Rightarrow> Some e
      | None \<Rightarrow> fst (parallel f rest (snd (deleteHook f i p))))"
  by (cases "deleteHook f i p"; cases "parallel f rest (snd (deleteHook f i p))")
    (use deleteHook_fst [of f i p] in \<open>auto split: option.splits\<close>)

lemma parallel_snd_Cons:
  "snd (parallel f (i # rest) p) = snd (parallel f rest (snd (deleteHook f i p)))"
  by (cases "deleteHook f i p"; cases "parallel f rest (snd (deleteHook f i p))") auto

lemma parallel_None_iff:
  "fst (parallel f ids p) = None \<longleftrightarrow> (\<forall>i\<in>set ids. deleteHook_fault f i = None)"
proof (induction ids arbitrary: p)
  case Nil
  show ?case by simp
next
  case (Cons i rest)
  show ?case
    by (cases "deleteHook_fault f i")
      (simp_all add: parallel_fst_Cons Cons.IH del: parallel.simps)
qed

lemma parallel_Some:
  "fst (parallel f ids p) = Some e \<Longrightarrow> \<exists>i\<in>set ids. deleteHook_fault f i = Some e"
proof (induction ids arbitrary: p)
  case Nil
  then show ?case by simp
next
  case (Cons i rest)
  show ?case
  proof (cases "deleteHook_fault f i")
    case None
    with Cons.prems have "fst (parallel f rest (snd (deleteHook f i p))) = Some e"
      by (simp add: parallel_fst_Cons del: parallel.simps)
    from Cons.IH [OF this] show ?thesis by auto
  next
    case (Some e')
    with Cons.prems have "e' = e"
      by (simp add: parallel_fst_Cons del: parallel.simps)
    with Some show ?thesis by simp
  qed
qed

lemma parallel_removes:
  "\<forall>i\<in>set ids. deleteHook_fault f i = None \<Longrightarrow>
   snd (parallel f ids p)
     = p\<lparr>provider_hooks := filter (\<lambda>h. hook_id h \<notin> set ids) (provider_hooks p)\<rparr>"
proof (induction ids arbitrary: p)
  case Nil
  show ?case by simp
next
  case (Cons i rest)
  let ?q = "p\<lparr>provider_hooks := filter (\<lambda>h. hook_id h \<noteq> i) (provider_hooks p)\<rparr>"
  from Cons.prems have "snd (parallel f (i # rest) p) = snd (parallel f rest ?q)"
    by (simp add: parallel_snd_Cons deleteHook_snd del: parallel.simps)
  also from Cons.prems have "\<dots> =
      ?q\<lparr>provider_hooks := filter (\<lambda>h. hook_id h \<notin> set rest) (provider_hooks ?q)\<rparr>"
    by (intro Cons.IH) simp
  also have "\<dots> =
      p\<lparr>provider_hooks := filter (\<lambda>h. hook_id h \<notin> set (i # rest)) (provider_hooks p)\<rparr>"
    by simp
  finally show ?case .
qed

lemma parallel_frame:
  "set (provider_hooks (snd (parallel f ids p))) \<subseteq> set (provider_hooks p)
   \<and> provider_next_id (snd (parallel f ids p)) = provider_next_id p"
proof (induction ids arbitrary: p)
  case Nil
  show ?case by simp
next
  case (Cons i rest)
  have "set (provider_hooks (snd (deleteHook f i p))) \<subseteq> set (provider_hooks p)"
    and "provider_next_id (snd (deleteHook f i p)) = provider_next_id p"
    by (auto simp: deleteHook_snd)
  with Cons.IH [of "snd (deleteHook f i p)"] show ?case
    unfolding parallel_snd_Cons by auto
qed

lemma cwe_listing_fails:
  "getHooks_fault f = Some err \<Longrightarrow>
   confirmWebhookExists url events f p = (Inl err, p, [GetHooks])"
  by (simp add: confirmWebhookExists_def getHooks_def)

lemma cwe_deletion_fails:
  assumes "getHooks_fault f = None"
    and "fst (parallel f (removers url events p) p) = Some err"
  shows "confirmWebhookExists url events f p =
     (Inl err, snd (parallel f (removers url events p) p),
      GetHooks # map DeleteHook (removers url events p))"
  using assms
  by (cases "parallel f (removers url events p) p")
    (simp add: confirmWebhookExists_def getHooks_def forEach_hook_eq removers_def)

lemma cwe_found:
  assumes "getHooks_fault f = None"
    and "fst (parallel f (removers url events p) p) = None"
    and "\<exists>h\<in>set (provider_hooks p). wanted url events h"
  shows "confirmWebhookExists url events f p =
     (Inr (), snd (parallel f (removers url events p) p),
      GetHooks # map DeleteHook (removers url events p))"
  using assms
  by (cases "parallel f (removers url events p) p")
    (simp add: confirmWebhookExists_def getHooks_def forEach_hook_eq removers_def)

lemma cwe_create:
  assumes "getHooks_fault f = None"
    and "fst (parallel f (removers url events p) p) = None"
    and "\<not> (\<exists>h\<in>set (provider_hooks p). wanted url events h)"
  shows "confirmWebhookExists url events f p =
     (case createHook_fault f of
        Some err \<Rightarrow>
          (Inl err, snd (parallel f (removers url events p) p),
           GetHooks # map DeleteHook (removers url events p) @ [CreateHook url events])
      | None \<Rightarrow>
          (Inr (),
           snd (createHook f url events (snd (parallel f (removers url events p) p))),
           GetHooks # map DeleteHook (removers url events p) @ [CreateHook url events]))"
  using assms
  by (cases "parallel f (removers url events p) p")
    (simp add: confirmWebhookExists_def getHooks_def forEach_hook_eq removers_def
       createHook_def split: option.splits)

lemma removal_keeps:
  assumes "distinct (map hook_id hs)"
  shows "filter (\<lambda>h. hook_id h \<notin> set (map hook_id (filter (stale url events) hs))) hs
       = filter (\<lambda>h. \<not> stale url events h) hs"
proof (rule filter_cong [OF refl])
  fix h
  assume h: "h \<in> set hs"
  from assms have inj: "inj_on hook_id (set hs)"
    by (simp add: distinct_map)
  show "(hook_id h \<notin> set (map hook_id (filter (stale url events) hs)))
      = (\<not> stale url events h)"
  proof
    assume a: "hook_id h \<notin> set (map hook_id (filter (stale url events) hs))"
    show "\<not> stale url events h"
    proof
      assume "stale url events h"
      with h have "hook_id h \<in> set (map hook_id (filter (stale url events) hs))"
        by auto
      with a show False by contradiction
    qed
  next
    assume n: "\<not> stale url events h"
    show "hook_id h \<notin> set (map hook_id (filter (stale url events) hs))"
    proof
      assume "hook_id h \<in> set (map hook_id (filter (stale url events) hs))"
      then obtain h' where h': "h' \<in> set hs" "stale url events h'" "hook_id h' = hook_id h"
        by auto
      with inj h have "h' = h"
        by (auto dest: inj_onD)
      with h' n show False by simp
    qed
  qed
qed

lemma success_state:
  assumes ids: "distinct (map hook_id (provider_hooks p))"
    and run: "confirmWebhookExists url events f p = (Inr (), p', calls)"
  shows "provider_hooks p' =
     filter (\<lambda>h. \<not> stale url events h) (provider_hooks p) @
       (if \<exists>h\<in>set (provider_hooks p). wanted url events h then []
        else [web_hook (provider_next_id p) url events])"
proof -
  let ?ids = "removers url events p"
  let ?r = "parallel f ?ids p"
  from run have g: "getHooks_fault f = None"
    by (cases "getHooks_fault f") (simp_all add: cwe_listing_fails)
  have n: "fst ?r = None"
  proof (cases "fst ?r")
    case None
    then show ?thesis .
  next
    case (Some err)
    from cwe_deletion_fails [OF g Some] run show ?thesis by simp
  qed
  then have "\<forall>i\<in>set ?ids. deleteHook_fault f i = None"
    by (simp add: parallel_None_iff)
  then have "snd ?r =
      p\<lparr>provider_hooks := filter (\<lambda>h. hook_id h \<notin> set ?ids) (provider_hooks p)\<rparr>"
    by (rule parallel_removes)
  also have "\<dots> = p\<lparr>provider_hooks := filter (\<lambda>h. \<not> stale url events h) (provider_hooks p)\<rparr>"
    using removal_keeps [OF ids, of url events] by (simp only: removers_def)
  finally have s: "snd ?r =
      p\<lparr>provider_hooks := filter (\<lambda>h. \<not> stale url events h) (provider_hooks p)\<rparr>" .
  show ?thesis
  proof (cases "\<exists>h\<in>set (provider_hooks p). wanted url events h")
    case True
    from cwe_found [OF g n True] run have "p' = snd ?r" by simp
    with s True show ?thesis by simp
  next
    case False
    from cwe_create [OF g n False] run
    have "createHook_fault f = None \<and> p' = snd (createHook f url events (snd ?r))"
      by (cases "createHook_fault f") simp_all
    with s False show ?thesis
      by (simp add: createHook_def web_hook_def)
  qed
qed

lemma second_run:
  assumes "filter (stale url events) (provider_hooks q) = []"
    and "\<exists>h\<in>set (provider_hooks q). wanted url events h"
  shows "confirmWebhookExists url events f' q =
     ((case getHooks_fault f' of Some err \<Rightarrow> Inl err | None \<Rightarrow> Inr ()), q, [GetHooks])"
proof (cases "getHooks_fault f'")
  case None
  from assms(1) have r: "removers url events q = []"
    by (simp add: removers_def)
  then have "fst (parallel f' (removers url events q) q) = None"
    by simp
  from cwe_found [OF None this assms(2)] r None show ?thesis
    by simp
next
  case (Some err)
  then show ?thesis by (simp add: cwe_listing_fails)
qed

text \<open>
  C1, as the code has it. Take a service whose hooks have distinct ids and among which at
  most one hook for the URL has events that match the requested ones, and requested events
  without a repetition. After a successful run of \<open>confirmWebhookExists\<close> exactly one hook
  for the URL exists, and its set of events is the requested one; a second run with the
  same URL and events, whatever the faults of its transport are, makes the listing call
  only and leaves the service as it is, and with the faults of the first run it succeeds.
\<close>

theorem confirmWebhookExists_reconciles:
  assumes ids: "distinct (map hook_id (provider_hooks p))"
    and one: "length (filter (wanted url events) (provider_hooks p)) \<le> 1"
    and ev: "distinct events"
    and run: "confirmWebhookExists url events f p = (Inr (), p', calls)"
  shows "(\<exists>h. hooks_for url p' = [h] \<and> set (hook_events h) = set events)
    \<and> (\<forall>f'. snd (confirmWebhookExists url events f' p') = (p', [GetHooks]))
    \<and> confirmWebhookExists url events f p' = (Inr (), p', [GetHooks])"
proof -
  let ?hs = "provider_hooks p"
  let ?found = "\<exists>h\<in>set ?hs. wanted url events h"
  let ?new = "web_hook (provider_next_id p) url events"
  have st: "provider_hooks p' =
      filter (\<lambda>h. \<not> stale url events h) ?hs @ (if ?found then [] else [?new])"
    by (rule success_state [OF ids run])
  have w: "(\<lambda>h. \<not> stale url events h \<and> url_matches url h) = wanted url events"
    by (auto simp: fun_eq_iff wanted_def stale_def)
  have new_url: "url_matches url ?new"
    by (simp add: url_matches_def web_hook_def)
  have new_events: "hook_events ?new = events"
    by (simp add: web_hook_def)
  from ev have "arraysMatch events events"
    by (simp add: arraysMatch_char)
  with new_url new_events have new_w: "wanted url events ?new"
    by (simp add: wanted_def)
  have hf: "hooks_for url p' =
      filter (wanted url events) ?hs @ (if ?found then [] else [?new])"
    using new_url by (simp add: hooks_for_def st w)
  have one_hook: "\<exists>h. hooks_for url p' = [h] \<and> set (hook_events h) = set events"
  proof (cases ?found)
    case True
    then have "filter (wanted url events) ?hs \<noteq> []"
      by (simp add: filter_empty_conv)
    with one obtain h where h: "filter (wanted url events) ?hs = [h]"
      by (cases "filter (wanted url events) ?hs") auto
    then have "h \<in> set (filter (wanted url events) ?hs)"
      by simp
    then have "wanted url events h"
      by simp
    then have "set (hook_events h) = set events"
      by (simp add: wanted_def arraysMatch_char)
    with h hf True show ?thesis by simp
  next
    case False
    then have "filter (wanted url events) ?hs = []"
      by (simp add: filter_empty_conv)
    with hf False new_events show ?thesis by simp
  qed
  have not_both: "\<not> stale url events h" if "wanted url events h" for h
    using that by (simp add: wanted_def stale_def)
  have no_stale: "filter (stale url events) (provider_hooks p') = []"
    using not_both [OF new_w] by (simp add: st filter_empty_conv)
  have has_wanted: "\<exists>h\<in>set (provider_hooks p'). wanted url events h"
  proof (cases ?found)
    case True
    then obtain h where "h \<in> set ?hs" and "wanted url events h"
      by blast
    with not_both [of h] have "h \<in> set (provider_hooks p')" by (simp add: st)
    with \<open>wanted url events h\<close> show ?thesis by blast
  next
    case False
    then have "?new \<in> set (provider_hooks p')" by (simp add: st)
    with new_w show ?thesis by blast
  qed
  from run have g: "getHooks_fault f = None"
    by (cases "getHooks_fault f") (simp_all add: cwe_listing_fails)
  from second_run [OF no_stale has_wanted] g one_hook show ?thesis
    by simp
qed

theorem confirmWebhookExists_witness:
  "distinct (map hook_id (provider_hooks stale_provider))
   \<and> length (filter (wanted ''http://tools/hook'' [''push'', ''pull_request''])
        (provider_hooks stale_provider)) \<le> 1
   \<and> confirmWebhookExists ''http://tools/hook'' [''push'', ''pull_request''] no_faults
        stale_provider
       = (Inr (), reconciled_provider,
          [GetHooks, DeleteHook 1, CreateHook ''http://tools/hook'' [''push'', ''pull_request'']])
   \<and> hooks_for ''http://tools/hook'' reconciled_provider
       = [web_hook 3 ''http://tools/hook'' [''push'', ''pull_request'']]
   \<and> confirmWebhookExists ''http://tools/hook'' [''push'', ''pull_request''] no_faults
        reconciled_provider
       = (Inr (), reconciled_provider, [GetHooks])"
  using confirmWebhookExists_reconciles
    [of stale_provider "''http://tools/hook''" "[''push'', ''pull_request'']" no_faults
        reconciled_provider
        "[GetHooks, DeleteHook 1, CreateHook ''http://tools/hook'' [''push'', ''pull_request'']]"]
  by (simp add: confirmWebhookExists_def getHooks_def deleteHook_def createHook_def
      url_matches_def wanted_def hooks_for_def arraysMatch_def intersection_def
      stale_provider_def reconciled_provider_def no_faults_def web_hook_def)

text \<open>
  The claim C1 as stated fails on a service with two hooks for the URL whose events both
  match: the run succeeds and both hooks stay. It also fails for requested events with a
  repetition: the hook that the first run creates does not match in the second run, which
  deletes it and creates another one.
\<close>

theorem confirmWebhookExists_keeps_twins_and_repeats:
  "confirmWebhookExists ''http://tools/hook'' [''push''] no_faults twin_provider
     = (Inr (), twin_provider, [GetHooks])
   \<and> length (hooks_for ''http://tools/hook'' twin_provider) = 2
   \<and> confirmWebhookExists ''http://tools/hook'' [''push'', ''push''] no_faults
        \<lparr>provider_hooks = [], provider_next_id = 1\<rparr>
       = (Inr (),
          \<lparr>provider_hooks = [web_hook 1 ''http://tools/hook'' [''push'', ''push'']],
            provider_next_id = 2\<rparr>,
          [GetHooks, CreateHook ''http://tools/hook'' [''push'', ''push'']])
   \<and> confirmWebhookExists ''http://tools/hook'' [''push'', ''push''] no_faults
        \<lparr>provider_hooks = [web_hook 1 ''http://tools/hook'' [''push'', ''push'']],
          provider_next_id = 2\<rparr>
       = (Inr (),
          \<lparr>provider_hooks = [web_hook 2 ''http://tools/hook'' [''push'', ''push'']],
            provider_next_id = 3\<rparr>,
          [GetHooks, DeleteHook 1, CreateHook ''http://tools/hook'' [''push'', ''push'']])"
  by (simp add: confirmWebhookExists_def getHooks_def deleteHook_def createHook_def
      url_matches_def hooks_for_def arraysMatch_def intersection_def
      twin_provider_def no_faults_def web_hook_def)

text \<open>
  C3. When the listing succeeds and the deletion of a stale hook for the URL fails, the
  callback receives an error, which is the error of the failed deletion of a stale hook;
  no creation is among the calls made, and no hook is at the service that was not there
  before.
\<close>

theorem failed_deletion_fails_reconciliation:
  assumes g: "getHooks_fault f = None"
    and h: "h \<in> set (provider_hooks p)"
    and s: "stale url events h"
    and d: "deleteHook_fault f (hook_id h) \<noteq> None"
  shows "\<exists>err h'. fst (confirmWebhookExists url events f p) = Inl err
      \<and> h' \<in> set (provider_hooks p) \<and> stale url events h'
      \<and> deleteHook_fault f (hook_id h') = Some err
      \<and> (\<forall>u ev. CreateHook u ev \<notin> set (snd (snd (confirmWebhookExists url events f p))))
      \<and> set (provider_hooks (fst (snd (confirmWebhookExists url events f p))))
            \<subseteq> set (provider_hooks p)
      \<and> provider_next_id (fst (snd (confirmWebhookExists url events f p)))
            = provider_next_id p"
proof -
  let ?ids = "removers url events p"
  from h s have "hook_id h \<in> set ?ids"
    by (auto simp: removers_def)
  with d have "fst (parallel f ?ids p) \<noteq> None"
    by (auto simp: parallel_None_iff)
  then obtain err where e: "fst (parallel f ?ids p) = Some err"
    by blast
  from parallel_Some [OF e] obtain i where "i \<in> set ?ids" and i: "deleteHook_fault f i = Some err"
    by blast
  then obtain h' where h': "h' \<in> set (provider_hooks p)" "stale url events h'" "hook_id h' = i"
    by (auto simp: removers_def)
  have run: "confirmWebhookExists url events f p =
      (Inl err, snd (parallel f ?ids p), GetHooks # map DeleteHook ?ids)"
    by (rule cwe_deletion_fails [OF g e])
  have "\<forall>u ev. CreateHook u ev \<notin> set (snd (snd (confirmWebhookExists url events f p)))"
    by (auto simp: run)
  with h' i parallel_frame [of f ?ids p] show ?thesis
    by (intro exI [of _ err] exI [of _ h']) (simp add: run)
qed

theorem failed_deletion_witness:
  "web_hook 2 ''http://tools/hook'' [''issues''] \<in> set (provider_hooks two_stale_provider)
   \<and> stale ''http://tools/hook'' [''push'', ''pull_request'']
        (web_hook 2 ''http://tools/hook'' [''issues''])
   \<and> confirmWebhookExists ''http://tools/hook'' [''push'', ''pull_request'']
        second_deletion_fails two_stale_provider
       = (Inl (TransportError ''500''),
          \<lparr>provider_hooks = [web_hook 2 ''http://tools/hook'' [''issues'']],
            provider_next_id = 3\<rparr>,
          [GetHooks, DeleteHook 1, DeleteHook 2])"
  using failed_deletion_fails_reconciliation
    [of second_deletion_fails "web_hook 2 ''http://tools/hook'' [''issues'']"
        two_stale_provider "''http://tools/hook''" "[''push'', ''pull_request'']"]
  by (simp add: confirmWebhookExists_def getHooks_def deleteHook_def createHook_def
      url_matches_def stale_def arraysMatch_def intersection_def
      two_stale_provider_def second_deletion_fails_def web_hook_def)


end
